theory Spec2Isabelle
  imports Main "HOL-Library.Sublist"
begin

section \<open>Red Specter ScriptMap: the extraction and classification pipeline\<close>

text \<open>
  A shallow embedding of \<^verbatim>\<open>src/redspecter_scriptmap.py\<close>. A Python \<^verbatim>\<open>str\<close> is a
  \<^typ>\<open>string\<close>, a list of 8-bit characters, and the embedding is one of ASCII text: a
  character with the high bit set is kept as it is by every function below (it has no
  case, is no white space and no letter), where Python would consult the Unicode tables.
  Such a character makes a string one that is not ASCII, which matters to the URL parser
  of the library.
  The texts of the notes are never inspected by the program; the one note of the source
  that is not ASCII is stored as its UTF-8 bytes.
\<close>

subsection \<open>The string methods of Python that the program calls\<close>

text \<open>The case mapping of the letters A to Z; no other character below U+0080 has one.\<close>

definition ascii_uppercase :: string where
  "ascii_uppercase = ''ABCDEFGHIJKLMNOPQRSTUVWXYZ''"

definition ascii_lowercase :: string where
  "ascii_lowercase = ''abcdefghijklmnopqrstuvwxyz''"

definition lower_char :: "char \<Rightarrow> char" where
  "lower_char c =
     (case map_of (zip ascii_uppercase ascii_lowercase) c of Some d \<Rightarrow> d | None \<Rightarrow> c)"

text \<open>\<^verbatim>\<open>s.lower()\<close>\<close>

definition py_lower :: "string \<Rightarrow> string" where
  "py_lower s = map lower_char s"

text \<open>
  The white space of \<^verbatim>\<open>str.strip()\<close> below U+0080: the characters 0x09 to 0x0D,
  0x1C to 0x1F and the space.
\<close>

definition is_space :: "char \<Rightarrow> bool" where
  "is_space c \<longleftrightarrow>
     c \<in> set [CHR 0x09, CHR 0x0A, CHR 0x0B, CHR 0x0C, CHR 0x0D,
                CHR 0x1C, CHR 0x1D, CHR 0x1E, CHR 0x1F, CHR 0x20]"

text \<open>\<^verbatim>\<open>s.lstrip(chars)\<close> and \<^verbatim>\<open>s.rstrip(chars)\<close>, the set of characters as a predicate.\<close>

definition py_lstrip :: "(char \<Rightarrow> bool) \<Rightarrow> string \<Rightarrow> string" where
  "py_lstrip P s = dropWhile P s"

definition py_rstrip :: "(char \<Rightarrow> bool) \<Rightarrow> string \<Rightarrow> string" where
  "py_rstrip P s = rev (dropWhile P (rev s))"

text \<open>\<^verbatim>\<open>s.strip()\<close>\<close>

definition py_strip :: "string \<Rightarrow> string" where
  "py_strip s = py_rstrip is_space (py_lstrip is_space s)"

text \<open>\<^verbatim>\<open>s.startswith(p)\<close> and \<^verbatim>\<open>s.endswith(p)\<close>\<close>

definition startswith :: "string \<Rightarrow> string \<Rightarrow> bool" where
  "startswith s p = (take (length p) s = p)"

definition endswith :: "string \<Rightarrow> string \<Rightarrow> bool" where
  "endswith s p = (length p \<le> length s \<and> drop (length s - length p) s = p)"

text \<open>\<^verbatim>\<open>p in s\<close>: the string \<open>p\<close> occurs in \<open>s\<close> at some position.\<close>

fun py_in :: "string \<Rightarrow> string \<Rightarrow> bool" where
  "py_in p [] = (p = [])"
| "py_in p (c # cs) = (startswith (c # cs) p \<or> py_in p cs)"

subsection \<open>The rule table\<close>

text \<open>
  \<^verbatim>\<open>CATEGORY_RULES\<close> is a dict literal; a Python dict iterates in insertion order, so
  the table is the list of its items in the order of the source.
\<close>

definition CATEGORY_RULES :: "(string \<times> string list) list" where
  "CATEGORY_RULES =
    [(''analytics'',
        [''google-analytics.com'', ''analytics.google.com'', ''googletagmanager.com'',
         ''gtag/js'', ''segment.io'', ''mixpanel.com'', ''matomo'', ''plausible.io'',
         ''snowplow'']),
     (''ads'',
        [''doubleclick.net'', ''googlesyndication.com'', ''adservice.google.com'',
         ''adsystem.com'', ''adnxs.com'', ''taboola'', ''outbrain'']),
     (''cdn/library'',
        [''cdn.'', ''cdnjs'', ''jsdelivr'', ''cloudflare.com'', ''unpkg.com'', ''static.'',
         ''ajax.googleapis.com'', ''code.jquery.com'', ''bootstrap'']),
     (''payment'',
        [''js.stripe.com'', ''stripe.com'', ''paypalobjects.com'',
         ''braintreepayments.com'', ''checkout.'']),
     (''social'',
        [''connect.facebook.net'', ''facebook.com'', ''platform.twitter.com'',
         ''twitter.com/widgets'', ''linkedin.com'', ''snap.'']),
     (''monitoring'',
        [''sentry.io'', ''bugsnag'', ''datadoghq.com'', ''newrelic'', ''rollbar'',
         ''logrocket'']),
     (''maps'',
        [''maps.googleapis.com'', ''mapbox.com'', ''leaflet'', ''openstreetmap''])]"

subsection \<open>\<^verbatim>\<open>classify_script\<close>\<close>

text \<open>
  The inner loop \<^verbatim>\<open>for pattern in patterns\<close>: the first pattern whose lower-cased form
  occurs in \<open>combined\<close>, if there is one.
\<close>

fun match_patterns :: "string \<Rightarrow> string list \<Rightarrow> string option" where
  "match_patterns combined [] = None"
| "match_patterns combined (pattern # patterns) =
     (if py_in (py_lower pattern) combined then Some pattern
      else match_patterns combined patterns)"

text \<open>The outer loop \<^verbatim>\<open>for cat, patterns in CATEGORY_RULES.items()\<close>.\<close>

fun match_rules :: "string \<Rightarrow> (string \<times> string list) list \<Rightarrow> (string \<times> string) option" where
  "match_rules combined [] = None"
| "match_rules combined ((cat, patterns) # rules) =
     (case match_patterns combined patterns of
        Some pattern \<Rightarrow> Some (cat, pattern)
      | None \<Rightarrow> match_rules combined rules)"

text \<open>The three heuristic tests, each appending its note to the list built so far.\<close>

definition note_widget :: string where
  "note_widget = ''Widget-style script (embedded component)''"

definition note_tracking :: string where
  "note_tracking = ''Tracking-related identifier in URL''"

definition note_bundle :: string where
  "note_bundle =
     ''Large JS bundle '' @
     [CHR 0xC3, CHR 0xA2, CHR 0xE2, CHR 0x82, CHR 0xAC, CHR 0xE2, CHR 0x80, CHR 0x9C] @
     '' may include multiple libraries''"

definition heuristic_notes :: "string \<Rightarrow> string list" where
  "heuristic_notes combined =
     (let notes = [];
          notes = (if py_in ''widget'' combined then notes @ [note_widget] else notes);
          notes = (if py_in ''tracker'' combined \<or> py_in ''track'' combined
                   then notes @ [note_tracking] else notes);
          notes = (if py_in ''bundle'' combined \<or> py_in ''vendor'' combined
                   then notes @ [note_bundle] else notes)
      in notes)"

definition classify_script :: "string \<Rightarrow> string \<Rightarrow> string \<times> string \<times> string list" where
  "classify_script h p =
     (let h = py_lower h;
          p = py_lower p;
          combined = h @ p
      in case match_rules combined CATEGORY_RULES of
           Some (cat, pattern) \<Rightarrow> (cat, pattern, [])
         | None \<Rightarrow> (''generic'', [], heuristic_notes combined))"

subsection \<open>\<^verbatim>\<open>is_first_party\<close>\<close>

definition is_first_party :: "string \<Rightarrow> string \<Rightarrow> bool" where
  "is_first_party h primary_domain =
     (if h = [] \<or> primary_domain = [] then False
      else let primary_domain = py_lstrip (\<lambda>c. c = CHR ''.'') (py_lower primary_domain);
               h = py_lower h
           in h = primary_domain \<or> endswith h (''.'' @ primary_domain))"

subsection \<open>\<^verbatim>\<open>extract_url_from_line\<close>\<close>

text \<open>
  \<^verbatim>\<open>SCRIPT_SRC_RE = re.compile(r'src=["\']([^"\']+)["\']', re.IGNORECASE)\<close>.
  A match that begins at the head of the text: the letters s, r, c in either case, an
  equals sign, a quote, the longest run of characters that are not quotes, and a quote.
  The run is greedy and a shorter run would be followed by a character that is not a
  quote, so there is a match exactly when the longest run is not empty and the text goes
  on after it. The result is group 1, the run.
\<close>

definition is_quote :: "char \<Rightarrow> bool" where
  "is_quote c \<longleftrightarrow> c = CHR 0x22 \<or> c = CHR 0x27"

fun src_match_here :: "string \<Rightarrow> string option" where
  "src_match_here (s # r # c # e # q # rest) =
     (if lower_char s = CHR ''s'' \<and> lower_char r = CHR ''r'' \<and> lower_char c = CHR ''c''
         \<and> e = CHR ''='' \<and> is_quote q
      then let g = takeWhile (\<lambda>x. \<not> is_quote x) rest
           in if g \<noteq> [] \<and> dropWhile (\<lambda>x. \<not> is_quote x) rest \<noteq> [] then Some g else None
      else None)"
| "src_match_here _ = None"

text \<open>\<^verbatim>\<open>SCRIPT_SRC_RE.search(line)\<close>: the match at the leftmost position that has one.\<close>

fun src_search :: "string \<Rightarrow> string option" where
  "src_search [] = None"
| "src_search (c # cs) =
     (case src_match_here (c # cs) of
        Some g \<Rightarrow> Some g
      | None \<Rightarrow> src_search cs)"

text \<open>\<^verbatim>\<open>line.startswith(("http://", "https://", "//"))\<close>\<close>

definition looks_like_url :: "string \<Rightarrow> bool" where
  "looks_like_url line \<longleftrightarrow>
     startswith line ''http://'' \<or> startswith line ''https://'' \<or> startswith line ''//''"

text \<open>
  \<open>None\<close> is Python's \<^verbatim>\<open>None\<close>. A line with \<^verbatim>\<open><script\<close> in it and no match of the
  regular expression is not returned at once: it falls through to the test of the prefix.
\<close>

definition extract_url_from_line :: "string \<Rightarrow> string option" where
  "extract_url_from_line line0 =
     (let line = py_strip line0 in
      if line = [] then None
      else
        case (if py_in ''<script'' (py_lower line) then src_search line else None) of
          Some g \<Rightarrow> Some (py_strip g)
        | None \<Rightarrow> if looks_like_url line then Some line else None)"

subsection \<open>\<^verbatim>\<open>urllib.parse.urlparse\<close>\<close>

text \<open>
  \<^verbatim>\<open>normalize_url\<close> calls \<^verbatim>\<open>urlparse\<close> of the standard library, modelled here after
  \<^verbatim>\<open>Lib/urllib/parse.py\<close> of CPython 3.11 for a \<^verbatim>\<open>str\<close> argument and the default
  arguments \<^verbatim>\<open>scheme=''\<close> and \<^verbatim>\<open>allow_fragments=True\<close>. It raises \<^verbatim>\<open>ValueError\<close> in three
  places: on an unmatched square bracket in the netloc, in \<^verbatim>\<open>_check_bracketed_host\<close>
  and in \<^verbatim>\<open>_checknetloc\<close>. The last two call into other modules of the library, which
  are parameters of the model, gathered in the record \<open>checks\<close>:
  \<^item> \<open>check_bracketed_host\<close> is true of the hosts in square brackets that
    \<^verbatim>\<open>_check_bracketed_host\<close> accepts with the \<^verbatim>\<open>ipaddress\<close> module (the function is
    absent before 3.11.4, where every host is accepted);
  \<^item> \<open>normalize_NFKC\<close> is \<^verbatim>\<open>unicodedata.normalize('NFKC', s)\<close>, which
    \<^verbatim>\<open>_checknetloc\<close> applies to a netloc that is not ASCII.
\<close>

datatype error = ValueError

record checks =
  check_bracketed_host :: "string \<Rightarrow> bool"
  normalize_NFKC :: "string \<Rightarrow> string"

text \<open>
  The most permissive library: every bracketed host is accepted and normalization leaves
  every string as it is, so that \<^verbatim>\<open>urlparse\<close> raises on an unmatched bracket only.
\<close>

definition permissive :: checks where
  "permissive = \<lparr>check_bracketed_host = (\<lambda>h. True), normalize_NFKC = (\<lambda>s. s)\<rparr>"

text \<open>
  A library that knows one entry of the Unicode tables: the character U+2100 (account
  of), the bytes E2 84 80 in UTF-8, has the normal form \<^verbatim>\<open>a/c\<close>. It serves to run the
  parser on a netloc that is not ASCII.
\<close>

fun nfkc_account_of :: "string \<Rightarrow> string" where
  "nfkc_account_of (a # b # c # s) =
     (if a = CHR 0xE2 \<and> b = CHR 0x84 \<and> c = CHR 0x80 then ''a/c'' @ nfkc_account_of s
      else a # nfkc_account_of (b # c # s))"
| "nfkc_account_of s = s"

definition account_of_library :: checks where
  "account_of_library =
     \<lparr>check_bracketed_host = (\<lambda>h. True), normalize_NFKC = nfkc_account_of\<rparr>"

text \<open>\<^verbatim>\<open>s.find(c)\<close>, \<^verbatim>\<open>s.find(c, start)\<close> and \<^verbatim>\<open>s.rfind(c)\<close>; \<open>None\<close> is \<^verbatim>\<open>-1\<close>.\<close>

definition str_find :: "char \<Rightarrow> string \<Rightarrow> nat option" where
  "str_find c s =
     (if c \<in> set s then Some (length (takeWhile (\<lambda>x. x \<noteq> c) s)) else None)"

definition str_find_from :: "char \<Rightarrow> string \<Rightarrow> nat \<Rightarrow> nat option" where
  "str_find_from c s start =
     (case str_find c (drop start s) of Some i \<Rightarrow> Some (start + i) | None \<Rightarrow> None)"

definition str_rfind :: "char \<Rightarrow> string \<Rightarrow> nat option" where
  "str_rfind c s =
     (if c \<in> set s then Some (length s - Suc (length (takeWhile (\<lambda>x. x \<noteq> c) (rev s))))
      else None)"

definition scheme_chars :: string where
  "scheme_chars =
     ''abcdefghijklmnopqrstuvwxyz'' @ ''ABCDEFGHIJKLMNOPQRSTUVWXYZ'' @ ''0123456789'' @ ''+-.''"

definition uses_params :: "string list" where
  "uses_params =
     [[], ''ftp'', ''hdl'', ''prospero'', ''http'', ''imap'', ''https'', ''shttp'', ''rtsp'',
      ''rtsps'', ''rtspu'', ''sip'', ''sips'', ''mms'', ''sftp'', ''tel'']"

text \<open>\<^verbatim>\<open>_WHATWG_C0_CONTROL_OR_SPACE\<close>: the characters 0x00 to 0x20.\<close>

definition is_c0_control_or_space :: "char \<Rightarrow> bool" where
  "is_c0_control_or_space c \<longleftrightarrow> (of_char c :: nat) \<le> 32"

text \<open>\<^verbatim>\<open>_UNSAFE_URL_BYTES_TO_REMOVE\<close>\<close>

definition unsafe_url_bytes :: "char list" where
  "unsafe_url_bytes = [CHR 0x09, CHR 0x0D, CHR 0x0A]"

text \<open>\<^verbatim>\<open>c.isascii() and c.isalpha()\<close>\<close>

definition is_ascii_alpha :: "char \<Rightarrow> bool" where
  "is_ascii_alpha c \<longleftrightarrow> c \<in> set ascii_lowercase \<or> c \<in> set ascii_uppercase"

text \<open>\<^verbatim>\<open>s.isascii()\<close>: every character is below U+0080.\<close>

definition str_isascii :: "string \<Rightarrow> bool" where
  "str_isascii s = list_all (\<lambda>c. (of_char c :: nat) < 128) s"

text \<open>
  \<^verbatim>\<open>_checknetloc(netloc)\<close>. It returns for an empty or ASCII netloc. Otherwise it removes
  the characters \<^verbatim>\<open>@ : # ?\<close>, normalizes the rest and, when that changed it, raises if
  one of \<^verbatim>\<open>/ ? # @ :\<close> occurs in the normal form.
\<close>

definition checknetloc :: "checks \<Rightarrow> string \<Rightarrow> error + unit" where
  "checknetloc ok netloc =
     (if netloc = [] \<or> str_isascii netloc then Inr ()
      else
        let n = fold (\<lambda>b n. filter (\<lambda>x. x \<noteq> b) n) ''@:#?'' netloc;
            netloc2 = normalize_NFKC ok n
        in if n = netloc2 then Inr ()
           else if list_ex (\<lambda>c. c \<in> set netloc2) ''/?#@:'' then Inl ValueError
           else Inr ())"

text \<open>\<^verbatim>\<open>_splitnetloc(url, start)\<close>\<close>

definition splitnetloc :: "string \<Rightarrow> nat \<Rightarrow> string \<times> string" where
  "splitnetloc url start =
     (let delim = fold (\<lambda>c delim. case str_find_from c url start of
                                      Some wdelim \<Rightarrow> min delim wdelim
                                    | None \<Rightarrow> delim)
                       ''/?#'' (length url)
      in (take (delim - start) (drop start url), drop delim url))"

text \<open>\<^verbatim>\<open>before, after = s.split(c, 1)\<close>, called when \<open>c\<close> occurs in \<open>s\<close>.\<close>

definition split_once :: "char \<Rightarrow> string \<Rightarrow> string \<times> string" where
  "split_once c s = (takeWhile (\<lambda>x. x \<noteq> c) s, drop 1 (dropWhile (\<lambda>x. x \<noteq> c) s))"

text \<open>\<^verbatim>\<open>netloc.partition('[')[2].partition(']')[0]\<close>\<close>

definition bracketed_host :: "string \<Rightarrow> string" where
  "bracketed_host netloc =
     takeWhile (\<lambda>x. x \<noteq> CHR '']'') (drop 1 (dropWhile (\<lambda>x. x \<noteq> CHR ''['') netloc))"

text \<open>The result of \<^verbatim>\<open>urlsplit\<close>: scheme, netloc, path, query, fragment.\<close>

type_synonym SplitResult = "string \<times> string \<times> string \<times> string \<times> string"

definition urlsplit :: "checks \<Rightarrow> string \<Rightarrow> error + SplitResult" where
  "urlsplit ok url0 =
     (let url = py_lstrip is_c0_control_or_space url0;
          url = fold (\<lambda>b url. filter (\<lambda>x. x \<noteq> b) url) unsafe_url_bytes url;
          (scheme, url) =
             (case str_find (CHR '':'') url of
                Some i \<Rightarrow>
                  if 0 < i \<and> is_ascii_alpha (hd url)
                     \<and> list_all (\<lambda>c. c \<in> set scheme_chars) (take i url)
                  then (py_lower (take i url), drop (Suc i) url)
                  else ([], url)
              | None \<Rightarrow> ([], url))
      in case (if take 2 url = ''//'' then
                 let (netloc, url) = splitnetloc url 2 in
                 if (CHR ''['' \<in> set netloc \<and> CHR '']'' \<notin> set netloc)
                    \<or> (CHR '']'' \<in> set netloc \<and> CHR ''['' \<notin> set netloc)
                 then Inl ValueError
                 else if CHR ''['' \<in> set netloc \<and> CHR '']'' \<in> set netloc
                         \<and> \<not> check_bracketed_host ok (bracketed_host netloc)
                 then Inl ValueError
                 else Inr (netloc, url)
               else Inr ([], url)) of
           Inl e \<Rightarrow> Inl e
         | Inr (netloc, url) \<Rightarrow>
             let (url, fragment) =
                   (if CHR ''#'' \<in> set url then split_once (CHR ''#'') url else (url, []));
                 (url, query) =
                   (if CHR ''?'' \<in> set url then split_once (CHR ''?'') url else (url, []))
             in case checknetloc ok netloc of
                  Inl e \<Rightarrow> Inl e
                | Inr _ \<Rightarrow> Inr (scheme, netloc, url, query, fragment))"

text \<open>
  \<^verbatim>\<open>_splitparams(url)\<close>. Without a slash and without a semicolon \<^verbatim>\<open>find\<close> gives
  \<^verbatim>\<open>-1\<close> and the slices are \<^verbatim>\<open>url[:-1]\<close> and \<^verbatim>\<open>url[0:]\<close>.
\<close>

definition splitparams :: "string \<Rightarrow> string \<times> string" where
  "splitparams url =
     (if CHR ''/'' \<in> set url then
        (case str_find_from (CHR '';'') url (the (str_rfind (CHR ''/'') url)) of
           None \<Rightarrow> (url, [])
         | Some i \<Rightarrow> (take i url, drop (Suc i) url))
      else
        (case str_find (CHR '';'') url of
           None \<Rightarrow> (butlast url, url)
         | Some i \<Rightarrow> (take i url, drop (Suc i) url)))"

text \<open>The result of \<^verbatim>\<open>urlparse\<close>: scheme, netloc, path, params, query, fragment.\<close>

type_synonym ParseResult = "string \<times> string \<times> string \<times> string \<times> string \<times> string"

definition urlparse :: "checks \<Rightarrow> string \<Rightarrow> error + ParseResult" where
  "urlparse ok url0 =
     (case urlsplit ok url0 of
        Inl e \<Rightarrow> Inl e
      | Inr (scheme, netloc, url, query, fragment) \<Rightarrow>
          let (url, params) =
                (if scheme \<in> set uses_params \<and> CHR '';'' \<in> set url then splitparams url
                 else (url, []))
          in Inr (scheme, netloc, url, params, query, fragment))"

subsection \<open>\<^verbatim>\<open>normalize_url\<close>\<close>

text \<open>The \<^verbatim>\<open>ValueError\<close> of \<^verbatim>\<open>urlparse\<close> is not caught: it leaves the function.\<close>

definition normalize_url :: "checks \<Rightarrow> string \<Rightarrow> error + string \<times> string \<times> string" where
  "normalize_url ok url0 =
     (let url = (if startswith url0 ''//'' then ''https:'' @ url0 else url0) in
      case urlparse ok url of
        Inl e \<Rightarrow> Inl e
      | Inr (scheme, netloc, path, params, query, fragment) \<Rightarrow>
          Inr (py_lower scheme, py_lower netloc, if path = [] then ''/'' else path))"

subsection \<open>\<^verbatim>\<open>process_scripts\<close>\<close>

record ScriptEntry =
  raw :: string
  url :: string
  scheme :: string
  host :: string
  path :: string
  category :: string
  subcategory :: string
  first_party :: bool
  "notes" :: "string list"

text \<open>\<^verbatim>\<open>raw.startswith(("#", "//", "<!--"))\<close>\<close>

definition is_comment :: "string \<Rightarrow> bool" where
  "is_comment r \<longleftrightarrow> startswith r ''#'' \<or> startswith r ''//'' \<or> startswith r ''<!--''"

definition note_no_host :: string where
  "note_no_host = ''No host component detected''"

text \<open>
  The loop over the lines of the input, with the list \<^verbatim>\<open>entries\<close> it appends to. The
  lines are those that \<^verbatim>\<open>read_input_lines\<close> yields. Nothing in the loop catches an
  exception, so the \<^verbatim>\<open>ValueError\<close> of a line ends the whole run.
\<close>

fun process_loop ::
  "checks \<Rightarrow> string \<Rightarrow> string list \<Rightarrow> ScriptEntry list \<Rightarrow> error + ScriptEntry list"
where
  "process_loop ok primary_domain [] entries = Inr entries"
| "process_loop ok primary_domain (line # lines) entries =
     (let r = py_strip line in
      if r = [] \<or> is_comment r then process_loop ok primary_domain lines entries
      else
        case extract_url_from_line r of
          None \<Rightarrow> process_loop ok primary_domain lines entries
        | Some u \<Rightarrow>
            if u = [] then process_loop ok primary_domain lines entries
            else
              case normalize_url ok u of
                Inl e \<Rightarrow> Inl e
              | Inr (s, h, p) \<Rightarrow>
                  let (cat, subcat, ns) = classify_script h p;
                      fp = is_first_party h primary_domain;
                      ns = (if h = [] then ns @ [note_no_host] else ns);
                      entry = \<lparr>raw = r, url = u, scheme = s, host = h, path = p,
                               category = cat, subcategory = subcat, first_party = fp,
                               notes = ns\<rparr>
                  in process_loop ok primary_domain lines (entries @ [entry]))"

definition process_scripts ::
  "checks \<Rightarrow> string list \<Rightarrow> string \<Rightarrow> error + ScriptEntry list"
where
  "process_scripts ok input_lines primary_domain =
     process_loop ok primary_domain input_lines []"

text \<open>
  What the body of the loop does with one line, read off \<open>process_loop\<close>: \<open>None\<close> when
  the line is passed over, the error when \<^verbatim>\<open>normalize_url\<close> raises, the record
  otherwise. It is used to reason about the loop and is not a function of the source.
\<close>

definition line_entry ::
  "checks \<Rightarrow> string \<Rightarrow> string \<Rightarrow> (error + ScriptEntry) option"
where
  "line_entry ok primary_domain line =
     (let r = py_strip line in
      if r = [] \<or> is_comment r then None
      else
        case extract_url_from_line r of
          None \<Rightarrow> None
        | Some u \<Rightarrow>
            if u = [] then None
            else
              case normalize_url ok u of
                Inl e \<Rightarrow> Some (Inl e)
              | Inr (s, h, p) \<Rightarrow>
                  let (cat, subcat, ns) = classify_script h p;
                      fp = is_first_party h primary_domain;
                      ns = (if h = [] then ns @ [note_no_host] else ns)
                  in Some (Inr \<lparr>raw = r, url = u, scheme = s, host = h, path = p,
                                category = cat, subcategory = subcat, first_party = fp,
                                notes = ns\<rparr>))"

subsection \<open>The output base name of \<^verbatim>\<open>main\<close>\<close>

text \<open>\<^verbatim>\<open>base = args.output_prefix.rstrip(".md")\<close>\<close>

definition output_base :: "string \<Rightarrow> string" where
  "output_base output_prefix = py_rstrip (\<lambda>c. c \<in> set ''.md'') output_prefix"

text \<open>
  What the specification asks for instead: the prefix without a literal trailing
  \<^verbatim>\<open>.md\<close>, and the prefix itself when it does not end so.
\<close>

definition strip_md_suffix :: "string \<Rightarrow> string" where
  "strip_md_suffix output_prefix =
     (if endswith output_prefix ''.md'' then take (length output_prefix - 3) output_prefix
      else output_prefix)"

section \<open>Properties\<close>

subsection \<open>The string methods against the notions of the list library\<close>

lemma startswith_iff_prefix: "startswith s p \<longleftrightarrow> prefix p s"
  by (metis startswith_def append_eq_conv_conj prefix_def)

lemma endswith_iff_suffix: "endswith s p \<longleftrightarrow> suffix p s"
proof
  assume "endswith s p"
  then have "s = take (length s - length p) s @ p"
    by (metis endswith_def append_take_drop_id)
  then show "suffix p s" by (metis suffixI)
next
  assume "suffix p s"
  then obtain q where "s = q @ p" by (auto simp: suffix_def)
  then show "endswith s p" by (simp add: endswith_def)
qed

lemma py_in_iff_sublist: "py_in p s \<longleftrightarrow> sublist p s"
proof (induction s)
  case Nil
  show ?case by simp
next
  case (Cons c cs)
  show ?case
  proof (cases p)
    case Nil
    then show ?thesis by (simp add: startswith_def)
  next
    case (Cons a as)
    then show ?thesis
      using Cons.IH by (simp add: startswith_iff_prefix sublist_Cons_right)
  qed
qed

lemma looks_like_url_iff:
  "looks_like_url s \<longleftrightarrow> prefix ''http://'' s \<or> prefix ''https://'' s \<or> prefix ''//'' s"
  by (simp add: looks_like_url_def startswith_iff_prefix)

lemma py_rstrip_decomp: "\<exists>t. s = py_rstrip P s @ t \<and> (\<forall>c\<in>set t. P c)"
proof -
  have "rev s = takeWhile P (rev s) @ dropWhile P (rev s)" by simp
  then have "s = rev (dropWhile P (rev s)) @ rev (takeWhile P (rev s))"
    by (metis rev_append rev_rev_ident)
  moreover have "\<forall>c\<in>set (rev (takeWhile P (rev s))). P c"
    by (auto dest: set_takeWhileD)
  ultimately show ?thesis unfolding py_rstrip_def by blast
qed

lemma py_rstrip_last: "py_rstrip P s \<noteq> [] \<Longrightarrow> \<not> P (last (py_rstrip P s))"
  unfolding py_rstrip_def
  by (metis hd_dropWhile last_rev rev_is_Nil_conv)

lemma py_rstrip_prefix: "prefix (py_rstrip P s) s"
  using py_rstrip_decomp [of s P] by (auto simp: prefix_def)

lemma dropWhile_id: "xs = [] \<or> \<not> P (hd xs) \<Longrightarrow> dropWhile P xs = xs"
  by (cases xs) auto

lemma py_strip_idem: "py_strip (py_strip s) = py_strip s"
proof -
  let ?t = "py_lstrip is_space s"
  let ?r = "py_rstrip is_space ?t"
  have t: "?t = [] \<or> \<not> is_space (hd ?t)"
    unfolding py_lstrip_def by (metis hd_dropWhile)
  have "?r = [] \<or> \<not> is_space (hd ?r)"
  proof (cases "?r = []")
    case False
    obtain q where q: "?t = ?r @ q" using py_rstrip_prefix [of is_space ?t] by (auto simp: prefix_def)
    with False have "hd ?r = hd ?t" by (metis hd_append2)
    moreover from q False have "?t \<noteq> []" by auto
    ultimately show ?thesis using t by simp
  qed simp
  then have 1: "py_lstrip is_space ?r = ?r"
    unfolding py_lstrip_def by (rule dropWhile_id)
  have "rev ?r = [] \<or> \<not> is_space (hd (rev ?r))"
    using py_rstrip_last [of is_space ?t] by (cases "?r = []") (simp_all add: hd_rev)
  then have "dropWhile is_space (rev ?r) = rev ?r" by (rule dropWhile_id)
  then have 2: "py_rstrip is_space ?r = ?r" by (simp add: py_rstrip_def)
  show ?thesis
    unfolding py_strip_def [of "py_rstrip is_space (py_lstrip is_space s)"] py_strip_def [of s]
    by (simp only: 1 2)
qed

lemma set_py_strip: "set (py_strip s) \<subseteq> set s"
proof -
  have "set (py_rstrip is_space t) \<subseteq> set t" for t
    using py_rstrip_prefix [of is_space t] by (rule set_mono_prefix)
  moreover have "set (py_lstrip is_space s) \<subseteq> set s"
    unfolding py_lstrip_def by (auto dest: set_dropWhileD)
  ultimately show ?thesis unfolding py_strip_def by blast
qed

subsection \<open>The category classifier\<close>

lemma match_patterns_find:
  "match_patterns c ps = find (\<lambda>pat. py_in (py_lower pat) c) ps"
  by (induction ps) simp_all

lemma find_append:
  "find P (xs @ ys) = (case find P xs of Some x \<Rightarrow> Some x | None \<Rightarrow> find P ys)"
  by (induction xs) simp_all

lemma find_map_Pair:
  "find (\<lambda>(cat, pat). Q pat) (map (Pair k) ps) = map_option (Pair k) (find Q ps)"
  by (induction ps) simp_all

lemma match_rules_find:
  "match_rules c rules =
     find (\<lambda>(cat, pat). py_in (py_lower pat) c)
       (concat (map (\<lambda>(cat, pats). map (Pair cat) pats) rules))"
proof (induction rules)
  case Nil
  show ?case by simp
next
  case (Cons r rules)
  obtain cat pats where r: "r = (cat, pats)" by (cases r)
  show ?case
    using Cons.IH
    by (simp add: r find_append find_map_Pair match_patterns_find split: option.splits)
qed

text \<open>Every pattern of the table is in lower case already.\<close>

lemma rules_lower_flat:
  "list_all (\<lambda>(cat, pat). py_lower pat = pat)
     (concat (map (\<lambda>(cat, pats). map (Pair cat) pats) CATEGORY_RULES))"
  by code_simp

lemma match_rules_mem:
  "match_rules c rules = Some (cat, pat) \<Longrightarrow> cat \<in> set (map fst rules)"
proof (induction rules)
  case Nil
  then show ?case by simp
next
  case (Cons r rules)
  obtain k ps where "r = (k, ps)" by (cases r)
  with Cons show ?case by (auto split: option.splits)
qed

lemma classify_script_category:
  "fst (classify_script h p) \<in> set (map fst CATEGORY_RULES @ [''generic''])"
  by (auto simp: classify_script_def Let_def split: option.splits dest!: match_rules_mem)

lemma generic_not_in_table: "''generic'' \<notin> set (map fst CATEGORY_RULES)"
  by (simp add: CATEGORY_RULES_def)

lemma classify_script_cases:
  "(fst (classify_script h p) \<in> set (map fst CATEGORY_RULES)
      \<and> snd (snd (classify_script h p)) = [])
   \<or> (fst (classify_script h p) = ''generic''
      \<and> snd (snd (classify_script h p)) = heuristic_notes (py_lower h @ py_lower p))"
  by (auto simp: classify_script_def Let_def split: option.splits dest!: match_rules_mem)

lemma classify_script_notes:
  "snd (snd (classify_script h p)) =
     (if fst (classify_script h p) = ''generic'' then heuristic_notes (py_lower h @ py_lower p)
      else [])"
  using classify_script_cases [of h p] generic_not_in_table by force

lemma classify_script_category_set:
  "fst (classify_script h p) \<in>
     set [''analytics'', ''ads'', ''cdn/library'', ''payment'', ''social'', ''monitoring'',
          ''maps'', ''generic'']"
  using classify_script_category [of h p] by (simp add: CATEGORY_RULES_def)

text \<open>
  Claim C1. For every host and path, \<open>classify_script\<close> lower-cases both, joins them
  and returns the category and the pattern of the first pair, in the table read category
  by category and pattern by pattern, whose pattern occurs in the joined string, with no
  notes. When no pattern occurs, the category is \<open>generic\<close>, the subcategory is empty
  and the notes are those of the heuristics, which therefore never change the category.
  The categories of the table are analytics, ads, cdn/library, payment, social,
  monitoring and maps, in this order.
\<close>

theorem classify_script_first_match:
  "classify_script h p =
     (case find (\<lambda>(cat, pat). sublist pat (py_lower h @ py_lower p))
             (concat (map (\<lambda>(cat, pats). map (Pair cat) pats) CATEGORY_RULES)) of
        Some (cat, pat) \<Rightarrow> (cat, pat, [])
      | None \<Rightarrow> (''generic'', [], heuristic_notes (py_lower h @ py_lower p)))
   \<and> map fst CATEGORY_RULES =
       [''analytics'', ''ads'', ''cdn/library'', ''payment'', ''social'', ''monitoring'', ''maps'']"
proof -
  let ?c = "py_lower h @ py_lower p"
  let ?flat = "concat (map (\<lambda>(cat, pats). map (Pair cat) pats) CATEGORY_RULES)"
  have "find (\<lambda>(cat, pat). py_in (py_lower pat) ?c) ?flat
        = find (\<lambda>(cat, pat). sublist pat ?c) ?flat"
  proof (rule find_cong)
    fix x assume "x \<in> set ?flat"
    from rules_lower_flat
    have "\<forall>x\<in>set ?flat. case x of (cat, pat) \<Rightarrow> py_lower pat = pat"
      by (simp only: list_all_iff)
    with \<open>x \<in> set ?flat\<close> have "case x of (cat, pat) \<Rightarrow> py_lower pat = pat"
      by blast
    then show "(case x of (cat, pat) \<Rightarrow> py_in (py_lower pat) ?c)
             = (case x of (cat, pat) \<Rightarrow> sublist pat ?c)"
      by (auto simp: py_in_iff_sublist)
  qed simp
  then have "match_rules ?c CATEGORY_RULES = find (\<lambda>(cat, pat). sublist pat ?c) ?flat"
    by (simp add: match_rules_find)
  then have "classify_script h p =
     (case find (\<lambda>(cat, pat). sublist pat ?c) ?flat of
        Some (cat, pat) \<Rightarrow> (cat, pat, [])
      | None \<Rightarrow> (''generic'', [], heuristic_notes ?c))"
    by (simp add: classify_script_def Let_def)
  moreover have "map fst CATEGORY_RULES =
       [''analytics'', ''ads'', ''cdn/library'', ''payment'', ''social'', ''monitoring'', ''maps'']"
    by (simp add: CATEGORY_RULES_def)
  ultimately show ?thesis by simp
qed

theorem classify_script_first_match_witness:
  "classify_script ''www.GoogleTagManager.com'' ''/gtm.js''
     = (''analytics'', ''googletagmanager.com'', [])"
proof -
  have "find (\<lambda>(cat, pat). sublist pat (py_lower ''www.GoogleTagManager.com'' @ py_lower ''/gtm.js''))
             (concat (map (\<lambda>(cat, pats). map (Pair cat) pats) CATEGORY_RULES))
        = Some (''analytics'', ''googletagmanager.com'')"
    by code_simp
  then show ?thesis
    using classify_script_first_match [of "''www.GoogleTagManager.com''" "''/gtm.js''"]
    by simp
qed

text \<open>
  Claim C4, as the specification states it, fails: the host \<^verbatim>\<open>unknownvendor.io\<close>
  contains \<^verbatim>\<open>vendor\<close>, one of the heuristic substrings, so the notes are not empty.
\<close>

theorem classify_unknownvendor_counterexample:
  "classify_script ''unknownvendor.io'' ''/lib.js'' \<noteq> (''generic'', [], [])"
  by code_simp

text \<open>
  Claim C4, amended. Classifying host \<^verbatim>\<open>unknownvendor.io\<close> with path \<^verbatim>\<open>/lib.js\<close>
  returns category \<open>generic\<close>, an empty subcategory and the single note of the
  bundle-vendor heuristic, because \<^verbatim>\<open>vendor\<close> occurs in the host.
\<close>

theorem classify_unknownvendor:
  "classify_script ''unknownvendor.io'' ''/lib.js'' = (''generic'', [], [note_bundle])
   \<and> sublist ''vendor'' (py_lower ''unknownvendor.io'' @ py_lower ''/lib.js'')"
  by code_simp

subsection \<open>The party classifier\<close>

text \<open>
  Claim C2. \<open>is_first_party\<close> is false when the host or the primary domain is empty;
  otherwise it is true exactly when the lower-cased host equals the primary domain
  (lower-cased, its leading dots stripped) or ends with a dot followed by it. The four
  examples of the specification evaluate as it says.
\<close>

theorem is_first_party_iff:
  "(is_first_party h pd \<longleftrightarrow>
      h \<noteq> [] \<and> pd \<noteq> [] \<and>
      (py_lower h = dropWhile (\<lambda>c. c = CHR ''.'') (py_lower pd)
       \<or> suffix (''.'' @ dropWhile (\<lambda>c. c = CHR ''.'') (py_lower pd)) (py_lower h)))
   \<and> is_first_party ''a.example.com'' ''example.com''
   \<and> is_first_party ''example.com'' ''example.com''
   \<and> \<not> is_first_party ''notexample.com'' ''example.com''
   \<and> \<not> is_first_party ''example.com.evil.com'' ''example.com''"
proof -
  have "is_first_party h pd \<longleftrightarrow>
      h \<noteq> [] \<and> pd \<noteq> [] \<and>
      (py_lower h = dropWhile (\<lambda>c. c = CHR ''.'') (py_lower pd)
       \<or> suffix (''.'' @ dropWhile (\<lambda>c. c = CHR ''.'') (py_lower pd)) (py_lower h))"
    by (simp add: is_first_party_def py_lstrip_def endswith_iff_suffix Let_def)
  moreover have "is_first_party ''a.example.com'' ''example.com''" by code_simp
  moreover have "is_first_party ''example.com'' ''example.com''" by code_simp
  moreover have "\<not> is_first_party ''notexample.com'' ''example.com''" by code_simp
  moreover have "\<not> is_first_party ''example.com.evil.com'' ''example.com''" by code_simp
  ultimately show ?thesis by simp
qed

theorem is_first_party_iff_witness:
  "is_first_party ''CDN.Example.com'' ''.example.COM''"
proof -
  have "suffix (''.'' @ dropWhile (\<lambda>c. c = CHR ''.'') (py_lower ''.example.COM''))
          (py_lower ''CDN.Example.com'')"
    by code_simp
  then show ?thesis
    using is_first_party_iff [of "''CDN.Example.com''" "''.example.COM''"] by simp
qed

subsection \<open>The line extractor\<close>

lemma takeWhile_dropWhile_split:
  assumes "dropWhile P xs \<noteq> []"
  shows "\<exists>y ys. xs = takeWhile P xs @ y # ys \<and> \<not> P y"
proof -
  obtain y ys where d: "dropWhile P xs = y # ys" using assms by (cases "dropWhile P xs") auto
  then have "\<not> P y" using hd_dropWhile [of P xs] by auto
  moreover have "xs = takeWhile P xs @ y # ys" using d takeWhile_dropWhile_id [of P xs] by simp
  ultimately show ?thesis by blast
qed

lemma src_match_here_Some_iff:
  "src_match_here s = Some g \<longleftrightarrow>
     (\<exists>a b c q q' post.
        s = a # b # c # CHR ''='' # q # g @ q' # post
        \<and> lower_char a = CHR ''s'' \<and> lower_char b = CHR ''r'' \<and> lower_char c = CHR ''c''
        \<and> is_quote q \<and> g \<noteq> [] \<and> (\<forall>x\<in>set g. \<not> is_quote x) \<and> is_quote q')"
  (is "?L \<longleftrightarrow> ?R")
proof
  assume ?L
  then obtain a b c e q rest where s: "s = a # b # c # e # q # rest"
    by (cases s rule: src_match_here.cases) auto
  from \<open>?L\<close> have h: "lower_char a = CHR ''s''" "lower_char b = CHR ''r''"
      "lower_char c = CHR ''c''" "e = CHR ''=''" "is_quote q"
      "g = takeWhile (\<lambda>x. \<not> is_quote x) rest" "g \<noteq> []"
      "dropWhile (\<lambda>x. \<not> is_quote x) rest \<noteq> []"
    unfolding s by (auto simp: Let_def split: if_splits)
  from takeWhile_dropWhile_split [OF h(8)] obtain q' post where
    r: "rest = g @ q' # post" "is_quote q'" using h(6) by auto
  have g: "\<forall>x\<in>set g. \<not> is_quote x" unfolding h(6) by (auto dest: set_takeWhileD)
  have "s = a # b # c # CHR ''='' # q # g @ q' # post" using s h(4) r(1) by simp
  with h(1,2,3,5,7) r(2) g show ?R by blast
next
  assume ?R
  then obtain a b c q q' post where
    s: "s = a # b # c # CHR ''='' # q # g @ q' # post"
    and h: "lower_char a = CHR ''s''" "lower_char b = CHR ''r''" "lower_char c = CHR ''c''"
      "is_quote q" "g \<noteq> []" "\<forall>x\<in>set g. \<not> is_quote x" "is_quote q'"
    by blast
  have t: "takeWhile (\<lambda>x. \<not> is_quote x) (g @ q' # post) = g"
    using h(6,7) by (simp add: takeWhile_append2)
  have d: "dropWhile (\<lambda>x. \<not> is_quote x) (g @ q' # post) = q' # post"
    using h(6,7) by (simp add: dropWhile_append2)
  show ?L unfolding s using h t d by (simp add: Let_def)
qed

lemma src_search_None_iff:
  "src_search s = None \<longleftrightarrow> (\<forall>pre t. s = pre @ t \<longrightarrow> src_match_here t = None)"
proof (induction s)
  case Nil
  show ?case by simp
next
  case (Cons c cs)
  show ?case
  proof
    assume n: "src_search (c # cs) = None"
    then have 1: "src_match_here (c # cs) = None" and 2: "src_search cs = None"
      by (auto split: option.splits)
    show "\<forall>pre t. c # cs = pre @ t \<longrightarrow> src_match_here t = None"
    proof (intro allI impI)
      fix pre t assume e: "c # cs = pre @ t"
      show "src_match_here t = None"
      proof (cases pre)
        case Nil
        with e 1 show ?thesis by simp
      next
        case (Cons x pre')
        with e have "cs = pre' @ t" by simp
        with 2 Cons.IH show ?thesis by blast
      qed
    qed
  next
    assume a: "\<forall>pre t. c # cs = pre @ t \<longrightarrow> src_match_here t = None"
    then have 1: "src_match_here (c # cs) = None" by (metis append_Nil)
    have "\<forall>pre t. cs = pre @ t \<longrightarrow> src_match_here t = None"
      using a by (metis append_Cons)
    with Cons.IH have "src_search cs = None" by blast
    with 1 show "src_search (c # cs) = None" by simp
  qed
qed

lemma src_search_Some:
  "src_search s = Some g \<Longrightarrow>
     \<exists>pre t. s = pre @ t \<and> src_match_here t = Some g
       \<and> (\<forall>pre' t'. s = pre' @ t' \<and> length pre' < length pre \<longrightarrow> src_match_here t' = None)"
proof (induction s)
  case Nil
  then show ?case by simp
next
  case (Cons c cs)
  show ?case
  proof (cases "src_match_here (c # cs)")
    case (Some g')
    with Cons.prems have "g' = g" by simp
    with Some have "c # cs = [] @ (c # cs) \<and> src_match_here (c # cs) = Some g
       \<and> (\<forall>pre' t'. c # cs = pre' @ t' \<and> length pre' < length ([]::string)
             \<longrightarrow> src_match_here t' = None)"
      by simp
    then show ?thesis by blast
  next
    case None
    with Cons.prems have "src_search cs = Some g" by simp
    from Cons.IH [OF this] obtain pre t where
      p: "cs = pre @ t" "src_match_here t = Some g"
         "\<forall>pre' t'. cs = pre' @ t' \<and> length pre' < length pre \<longrightarrow> src_match_here t' = None"
      by blast
    have "src_match_here t' = None" if "c # cs = pre' @ t'" "length pre' < length (c # pre)"
      for pre' t'
    proof (cases pre')
      case Nil
      with that None show ?thesis by simp
    next
      case (Cons x q)
      with that have "cs = q @ t'" "length q < length pre" by auto
      with p(3) show ?thesis by blast
    qed
    with p(1,2) have "c # cs = (c # pre) @ t \<and> src_match_here t = Some g
       \<and> (\<forall>pre' t'. c # cs = pre' @ t' \<and> length pre' < length (c # pre)
             \<longrightarrow> src_match_here t' = None)"
      by simp
    then show ?thesis by blast
  qed
qed

lemma set_src_match_here: "src_match_here s = Some g \<Longrightarrow> set g \<subseteq> set s"
  by (induction s rule: src_match_here.induct)
     (auto simp: Let_def split: if_splits dest: set_takeWhileD)

lemma set_src_search: "src_search s = Some g \<Longrightarrow> set g \<subseteq> set s"
proof (induction s)
  case Nil
  then show ?case by simp
next
  case (Cons c cs)
  then show ?case
    by (auto split: option.splits dest!: set_src_match_here)
qed

lemma set_extract_url: "extract_url_from_line l = Some u \<Longrightarrow> set u \<subseteq> set l"
  using set_py_strip
  by (fastforce simp: extract_url_from_line_def Let_def
        split: if_splits option.splits dest!: set_src_search)

text \<open>
  Claim C7, as the specification states it, fails: the line below contains
  \<^verbatim>\<open><script\<close>, has no \<^verbatim>\<open>src\<close> attribute and begins with \<^verbatim>\<open>https://\<close>, and the
  extractor returns it.
\<close>

theorem extract_script_without_src_counterexample:
  "sublist ''<script'' (py_lower (py_strip ''https://a.b/<script>''))
   \<and> src_search (py_strip ''https://a.b/<script>'') = None
   \<and> prefix ''https://'' (py_strip ''https://a.b/<script>'')
   \<and> extract_url_from_line ''https://a.b/<script>'' = Some ''https://a.b/<script>''"
  by code_simp

text \<open>
  Claim C7, amended. For every line whose trimmed form contains \<^verbatim>\<open><script\<close> in any
  case and in which the regular expression finds no \<^verbatim>\<open>src\<close> attribute, the extractor
  falls through to the test of the prefix: it returns the trimmed line when that begins
  with \<^verbatim>\<open>http://\<close>, \<^verbatim>\<open>https://\<close> or \<^verbatim>\<open>//\<close>, and nothing otherwise.
\<close>

theorem extract_script_without_src:
  assumes "sublist ''<script'' (py_lower (py_strip l))"
      and "src_search (py_strip l) = None"
  shows "extract_url_from_line l =
           (if prefix ''http://'' (py_strip l) \<or> prefix ''https://'' (py_strip l)
               \<or> prefix ''//'' (py_strip l)
            then Some (py_strip l) else None)"
proof -
  from assms(1) have "py_strip l \<noteq> []" by (auto simp: py_lower_def)
  with assms show ?thesis
    by (simp add: extract_url_from_line_def Let_def looks_like_url_iff py_in_iff_sublist)
qed

theorem extract_script_without_src_witness:
  "sublist ''<script'' (py_lower (py_strip '' <SCRIPT>alert(1)</SCRIPT>''))
   \<and> src_search (py_strip '' <SCRIPT>alert(1)</SCRIPT>'') = None
   \<and> extract_url_from_line '' <SCRIPT>alert(1)</SCRIPT>'' = None"
proof -
  have a: "sublist ''<script'' (py_lower (py_strip '' <SCRIPT>alert(1)</SCRIPT>''))" by code_simp
  have b: "src_search (py_strip '' <SCRIPT>alert(1)</SCRIPT>'') = None" by code_simp
  have c: "\<not> (prefix ''http://'' (py_strip '' <SCRIPT>alert(1)</SCRIPT>'')
              \<or> prefix ''https://'' (py_strip '' <SCRIPT>alert(1)</SCRIPT>'')
              \<or> prefix ''//'' (py_strip '' <SCRIPT>alert(1)</SCRIPT>''))" by code_simp
  from extract_script_without_src [OF a b] a b c show ?thesis by simp
qed

subsection \<open>The URL normalizer\<close>

lemma set_splitnetloc: "set (fst (splitnetloc s n)) \<subseteq> set s"
proof -
  have "set (take k (drop n s)) \<subseteq> set s" for k
    using set_take_subset [of k "drop n s"] set_drop_subset [of n s] by blast
  then show ?thesis by (simp add: splitnetloc_def Let_def)
qed

lemma set_unsafe_removed:
  "set (fold (\<lambda>b url. filter (\<lambda>x. x \<noteq> b) url) bs s) \<subseteq> set s"
proof (induction bs arbitrary: s)
  case Nil
  show ?case by simp
next
  case (Cons b bs)
  have "set (fold (\<lambda>b url. filter (\<lambda>x. x \<noteq> b) url) bs (filter (\<lambda>x. x \<noteq> b) s))
          \<subseteq> set (filter (\<lambda>x. x \<noteq> b) s)"
    by (rule Cons.IH)
  then show ?case by auto
qed

lemma str_isascii_subset: "set t \<subseteq> set s \<Longrightarrow> str_isascii s \<Longrightarrow> str_isascii t"
  by (auto simp: str_isascii_def list_all_iff)

lemma checknetloc_ascii: "str_isascii n \<Longrightarrow> checknetloc ok n = Inr ()"
  by (simp add: checknetloc_def)

lemma checknetloc_empty: "checknetloc ok [] = Inr ()"
  by (simp add: checknetloc_def)

text \<open>
  The URL parser raises only on a square bracket or on a string that is not ASCII.
\<close>

lemma urlsplit_raises:
  assumes "urlsplit ok u = Inl e"
  shows "CHR ''['' \<in> set u \<or> CHR '']'' \<in> set u \<or> \<not> str_isascii u"
proof -
  define u1 where "u1 = py_lstrip is_c0_control_or_space u"
  define u2 where "u2 = fold (\<lambda>b url. filter (\<lambda>x. x \<noteq> b) url) unsafe_url_bytes u1"
  define su where "su =
     (case str_find (CHR '':'') u2 of
        Some i \<Rightarrow>
          if 0 < i \<and> is_ascii_alpha (hd u2)
             \<and> list_all (\<lambda>c. c \<in> set scheme_chars) (take i u2)
          then (py_lower (take i u2), drop (Suc i) u2)
          else ([], u2)
      | None \<Rightarrow> ([], u2))"
  define N where "N = fst (splitnetloc (snd su) 2)"
  have "set u1 \<subseteq> set u"
    unfolding u1_def py_lstrip_def by (auto dest: set_dropWhileD)
  moreover have "set u2 \<subseteq> set u1"
    unfolding u2_def by (rule set_unsafe_removed)
  moreover have "set (snd su) \<subseteq> set u2"
    unfolding su_def by (auto split: option.splits dest: in_set_dropD)
  ultimately have sub: "set N \<subseteq> set u"
    unfolding N_def using set_splitnetloc [of "snd su" 2] by blast
  from assms have
    "CHR ''['' \<in> set N \<or> CHR '']'' \<in> set N \<or> checknetloc ok N = Inl e"
    unfolding urlsplit_def u1_def [symmetric] Let_def u2_def [symmetric] su_def [symmetric] N_def
    by (auto simp: checknetloc_empty split: prod.splits if_splits sum.splits)
  moreover have "\<not> str_isascii u" if "checknetloc ok N = Inl e"
  proof
    assume "str_isascii u"
    with sub have "str_isascii N" by (rule str_isascii_subset)
    with that show False by (simp add: checknetloc_ascii)
  qed
  ultimately show ?thesis using sub by blast
qed

text \<open>
  Without brackets the parser can still raise: \<^verbatim>\<open>_checknetloc\<close> rejects the netloc
  \<^verbatim>\<open>a\<close>, U+2100, \<^verbatim>\<open>b\<close>, whose normal form contains a slash.
\<close>

lemma normalize_url_not_ascii_raises:
  "normalize_url account_of_library (''http://a'' @ [CHR 0xE2, CHR 0x84, CHR 0x80] @ ''b/x'')
     = Inl ValueError
   \<and> CHR ''['' \<notin> set (''http://a'' @ [CHR 0xE2, CHR 0x84, CHR 0x80] @ ''b/x'')
   \<and> CHR '']'' \<notin> set (''http://a'' @ [CHR 0xE2, CHR 0x84, CHR 0x80] @ ''b/x'')
   \<and> \<not> str_isascii (''http://a'' @ [CHR 0xE2, CHR 0x84, CHR 0x80] @ ''b/x'')"
  by code_simp

lemma normalize_url_ascii_no_brackets:
  assumes "str_isascii u" and "CHR ''['' \<notin> set u" and "CHR '']'' \<notin> set u"
  shows "\<exists>s h p. normalize_url ok u = Inr (s, h, p) \<and> p \<noteq> []"
proof -
  let ?v = "if startswith u ''//'' then ''https:'' @ u else u"
  have "str_isascii ''https:''" by code_simp
  with assms(1) have "str_isascii ?v" by (simp add: str_isascii_def)
  moreover from assms have "CHR ''['' \<notin> set ?v \<and> CHR '']'' \<notin> set ?v" by simp
  ultimately have "\<forall>e. urlsplit ok ?v \<noteq> Inl e" using urlsplit_raises by blast
  then obtain r where "urlsplit ok ?v = Inr r" by (cases "urlsplit ok ?v") auto
  then show ?thesis
    by (auto simp: normalize_url_def urlparse_def Let_def split: prod.splits)
qed

subsection \<open>The loop of the pipeline\<close>

lemma process_loop_step:
  "process_loop ok pd (line # lines) entries =
     (case line_entry ok pd line of
        None \<Rightarrow> process_loop ok pd lines entries
      | Some (Inl e) \<Rightarrow> Inl e
      | Some (Inr entry) \<Rightarrow> process_loop ok pd lines (entries @ [entry]))"
  by (simp add: line_entry_def Let_def split: option.splits sum.splits prod.splits)

lemma process_loop_acc:
  "process_loop ok pd ls acc =
     (case process_loop ok pd ls [] of Inl e \<Rightarrow> Inl e | Inr es \<Rightarrow> Inr (acc @ es))"
proof (induction ls arbitrary: acc)
  case Nil
  show ?case by simp
next
  case (Cons l ls)
  show ?case
  proof (cases "line_entry ok pd l")
    case None
    then show ?thesis using Cons.IH [of acc] by (simp only: process_loop_step option.case)
  next
    case (Some r)
    show ?thesis
    proof (cases r)
      case (Inl e)
      with Some show ?thesis by (simp only: process_loop_step option.case sum.case)
    next
      case (Inr en)
      have "process_loop ok pd (l # ls) acc = process_loop ok pd ls (acc @ [en])"
        using Some Inr by (simp only: process_loop_step option.case sum.case)
      also have "\<dots> = (case process_loop ok pd ls [] of Inl e \<Rightarrow> Inl e
                        | Inr es \<Rightarrow> Inr (acc @ [en] @ es))"
        using Cons.IH [of "acc @ [en]"] by (simp split: sum.splits)
      also have "\<dots> = (case process_loop ok pd ls [en] of Inl e \<Rightarrow> Inl e
                        | Inr es \<Rightarrow> Inr (acc @ es))"
        using Cons.IH [of "[en]"] by (simp split: sum.splits)
      also have "process_loop ok pd ls [en] = process_loop ok pd (l # ls) []"
        using Some Inr by (simp only: process_loop_step option.case sum.case append_Nil)
      finally show ?thesis .
    qed
  qed
qed

lemma process_loop_append:
  "process_loop ok pd (xs @ ys) acc =
     (case process_loop ok pd xs acc of Inl e \<Rightarrow> Inl e | Inr acc' \<Rightarrow> process_loop ok pd ys acc')"
proof (induction xs arbitrary: acc)
  case Nil
  show ?case by simp
next
  case (Cons l xs)
  show ?case
  proof (cases "line_entry ok pd l")
    case None
    then show ?thesis
      using Cons.IH [of acc] by (simp only: append_Cons process_loop_step option.case)
  next
    case (Some r)
    show ?thesis
    proof (cases r)
      case (Inl e)
      with Some show ?thesis
        by (simp only: append_Cons process_loop_step option.case sum.case)
    next
      case (Inr en)
      with Some show ?thesis
        using Cons.IH [of "acc @ [en]"]
        by (simp only: append_Cons process_loop_step option.case sum.case)
    qed
  qed
qed

lemma process_loop_Cons:
  "process_loop ok pd (l # ls) [] =
     (case line_entry ok pd l of
        None \<Rightarrow> process_loop ok pd ls []
      | Some (Inl e) \<Rightarrow> Inl e
      | Some (Inr en) \<Rightarrow>
          (case process_loop ok pd ls [] of Inl e \<Rightarrow> Inl e | Inr es \<Rightarrow> Inr (en # es)))"
proof (cases "line_entry ok pd l")
  case None
  then show ?thesis by (simp only: process_loop_step option.case)
next
  case (Some r)
  show ?thesis
  proof (cases r)
    case (Inl e)
    with Some show ?thesis by (simp only: process_loop_step option.case sum.case)
  next
    case (Inr en)
    with Some show ?thesis
      using process_loop_acc [of ok pd ls "[en]"]
      by (simp only: process_loop_step option.case sum.case append_Nil append_Cons)
  qed
qed

lemma process_loop_entries:
  "process_loop ok pd ls [] = Inr es \<Longrightarrow>
     map (\<lambda>e. Some (Inr e)) es = filter (\<lambda>r. r \<noteq> None) (map (line_entry ok pd) ls)"
proof (induction ls arbitrary: es)
  case Nil
  then show ?case by simp
next
  case (Cons l ls)
  from Cons.prems show ?case
    by (auto simp only: process_loop_Cons split: option.splits sum.splits
          dest!: Cons.IH) simp_all
qed

lemma process_loop_returns:
  "(\<forall>l\<in>set ls. \<forall>e. line_entry ok pd l \<noteq> Some (Inl e)) \<Longrightarrow>
     \<exists>es. process_loop ok pd ls [] = Inr es"
proof (induction ls)
  case Nil
  show ?case by simp
next
  case (Cons l ls)
  then obtain es where es: "process_loop ok pd ls [] = Inr es" by auto
  from Cons.prems have "\<forall>e. line_entry ok pd l \<noteq> Some (Inl e)" by simp
  then show ?case
    by (cases "line_entry ok pd l")
       (auto simp only: process_loop_Cons es option.case sum.case split: sum.splits)
qed

lemma line_entry_Inr:
  assumes "line_entry ok pd l = Some (Inr e)"
  shows "raw e = py_strip l" and "raw e \<noteq> []" and "\<not> is_comment (raw e)"
    and "extract_url_from_line (raw e) = Some (url e)" and "url e \<noteq> []"
    and "normalize_url ok (url e) = Inr (scheme e, host e, path e)"
    and "category e = fst (classify_script (host e) (path e))"
    and "subcategory e = fst (snd (classify_script (host e) (path e)))"
    and "first_party e = is_first_party (host e) pd"
    and "notes e = snd (snd (classify_script (host e) (path e)))
                   @ (if host e = [] then [note_no_host] else [])"
  using assms
  by (auto simp: line_entry_def Let_def split: if_splits option.splits sum.splits prod.splits)

lemma line_entry_None_iff:
  "line_entry ok pd l = None \<longleftrightarrow>
     py_strip l = [] \<or> is_comment (py_strip l)
     \<or> extract_url_from_line (py_strip l) = None
     \<or> extract_url_from_line (py_strip l) = Some []"
  by (auto simp: line_entry_def Let_def split: if_splits option.splits sum.splits prod.splits)

lemma line_entry_comment: "is_comment (py_strip l) \<Longrightarrow> line_entry ok pd l = None"
  by (simp add: line_entry_None_iff)

declare process_loop.simps(2) [simp del]

lemma process_scripts_skip:
  assumes "line_entry ok pd l = None"
  shows "process_scripts ok (pre @ l # post) pd = process_scripts ok (pre @ post) pd"
proof -
  have "process_loop ok pd (l # post) acc = process_loop ok pd post acc" for acc
    using assms by (simp only: process_loop_step option.case)
  then show ?thesis
    unfolding process_scripts_def process_loop_append [of ok pd pre]
    by (simp split: sum.splits)
qed

lemma line_entry_Inl:
  assumes "line_entry ok pd l = Some (Inl e)"
  shows "\<exists>u. extract_url_from_line (py_strip l) = Some u \<and> u \<noteq> [] \<and> normalize_url ok u = Inl e"
  using assms
  by (auto simp: line_entry_def Let_def split: if_splits option.splits sum.splits prod.splits)

lemma line_entry_Inl_intro:
  assumes "py_strip l \<noteq> []" and "\<not> is_comment (py_strip l)"
      and "extract_url_from_line (py_strip l) = Some u" and "u \<noteq> []"
      and "normalize_url ok u = Inl e"
  shows "line_entry ok pd l = Some (Inl e)"
  using assms by (simp add: line_entry_def Let_def)

lemma line_entry_Inr_intro:
  assumes "py_strip l \<noteq> []" and "\<not> is_comment (py_strip l)"
      and "extract_url_from_line (py_strip l) = Some u" and "u \<noteq> []"
      and "normalize_url ok u = Inr (s, h, p)"
  shows "\<exists>e. line_entry ok pd l = Some (Inr e) \<and> raw e = py_strip l \<and> url e = u
              \<and> scheme e = s \<and> host e = h \<and> path e = p"
  using assms by (simp add: line_entry_def Let_def split: prod.splits)

lemma process_scripts_abort:
  assumes "process_scripts ok pre pd = Inr es" and "line_entry ok pd l = Some (Inl e)"
  shows "process_scripts ok (pre @ l # post) pd = Inl e"
proof -
  have "process_loop ok pd (l # post) acc = Inl e" for acc
    using assms(2) by (simp only: process_loop_step option.case sum.case)
  with assms(1) show ?thesis
    unfolding process_scripts_def process_loop_append [of ok pd pre] by simp
qed

lemma line_entry_ascii_no_brackets:
  assumes "str_isascii l" and "CHR ''['' \<notin> set l" and "CHR '']'' \<notin> set l"
  shows "line_entry ok pd l \<noteq> Some (Inl e)"
proof
  assume "line_entry ok pd l = Some (Inl e)"
  then obtain u where u: "extract_url_from_line (py_strip l) = Some u" "normalize_url ok u = Inl e"
    using line_entry_Inl by blast
  from u(1) have sub: "set u \<subseteq> set l"
    using set_extract_url [of "py_strip l" u] set_py_strip [of l] by blast
  with assms have "CHR ''['' \<notin> set u" "CHR '']'' \<notin> set u" by auto
  moreover from sub assms(1) have "str_isascii u" by (rule str_isascii_subset)
  ultimately show False using normalize_url_ascii_no_brackets [of u ok] u(2) by auto
qed

lemma process_loop_mem:
  assumes "process_loop ok pd ls [] = Inr es"
  shows "e \<in> set es \<longleftrightarrow> (\<exists>l\<in>set ls. line_entry ok pd l = Some (Inr e))"
proof -
  have "set (map (\<lambda>e. Some (Inr e)) es)
        = set (filter (\<lambda>r. r \<noteq> None) (map (line_entry ok pd) ls))"
    using process_loop_entries [OF assms] by simp
  then have eq: "(\<lambda>e. Some (Inr e)) ` set es = {r \<in> line_entry ok pd ` set ls. r \<noteq> None}"
    by simp
  show ?thesis
  proof
    assume "e \<in> set es"
    then have "Some (Inr e :: error + ScriptEntry) \<in> (\<lambda>e. Some (Inr e)) ` set es" by blast
    then have "Some (Inr e) \<in> {r \<in> line_entry ok pd ` set ls. r \<noteq> None}"
      by (simp only: eq)
    then show "\<exists>l\<in>set ls. line_entry ok pd l = Some (Inr e)" by force
  next
    assume "\<exists>l\<in>set ls. line_entry ok pd l = Some (Inr e)"
    then have "Some (Inr e) \<in> {r \<in> line_entry ok pd ` set ls. r \<noteq> None}" by force
    then have "Some (Inr e :: error + ScriptEntry) \<in> (\<lambda>e. Some (Inr e)) ` set es"
      by (simp only: eq)
    then show "e \<in> set es" by auto
  qed
qed

lemma filter_map_comp: "filter P (map f xs) = map f (filter (\<lambda>x. P (f x)) xs)"
  by (induction xs) simp_all

lemma process_loop_raws:
  "process_loop ok pd ls [] = Inr es \<Longrightarrow>
     map raw es = map py_strip (filter (\<lambda>l. line_entry ok pd l \<noteq> None) ls)"
proof (induction ls arbitrary: es)
  case Nil
  then show ?case by simp
next
  case (Cons l ls)
  show ?case
  proof (cases "line_entry ok pd l")
    case None
    with Cons show ?thesis by (simp add: process_loop_Cons)
  next
    case (Some r)
    show ?thesis
    proof (cases r)
      case (Inl e)
      with Some Cons.prems show ?thesis by (simp add: process_loop_Cons)
    next
      case (Inr en)
      with Some Cons.prems obtain es' where
        es': "process_loop ok pd ls [] = Inr es'" "es = en # es'"
        by (auto simp: process_loop_Cons split: sum.splits)
      have "raw en = py_strip l" using line_entry_Inr(1) Some Inr by blast
      with es' Some Cons.IH [OF es'(1)] show ?thesis by simp
    qed
  qed
qed

lemma process_loop_replicate:
  assumes "line_entry ok pd l = Some (Inr e)"
  shows "process_loop ok pd (replicate n l) [] = Inr (replicate n e)"
  using assms by (induction n) (simp_all add: process_loop_Cons)

subsection \<open>The pipeline: the example, comments, errors, records\<close>

text \<open>
  Claim C3. On the four lines of the example of the specification, with the primary
  domain \<^verbatim>\<open>example.com\<close>, the pipeline returns exactly two records in the order of
  the input: the first of category analytics and third-party, the second of category
  cdn/library and third-party. The comment line and the line that is no URL give no
  record, also when they are processed alone.
\<close>

theorem pipeline_example:
  "process_scripts ok
     [''https://www.google-analytics.com/ga.js'',
      ''# comment'',
      ''<script src='' @ [CHR 0x22] @ ''https://cdn.jsdelivr.net/lib.js'' @ [CHR 0x22] @ ''></script>'',
      ''not a url'']
     ''example.com''
   = Inr [\<lparr>raw = ''https://www.google-analytics.com/ga.js'',
            url = ''https://www.google-analytics.com/ga.js'',
            scheme = ''https'', host = ''www.google-analytics.com'', path = ''/ga.js'',
            category = ''analytics'', subcategory = ''google-analytics.com'',
            first_party = False, notes = []\<rparr>,
          \<lparr>raw = ''<script src='' @ [CHR 0x22] @ ''https://cdn.jsdelivr.net/lib.js'' @ [CHR 0x22] @ ''></script>'',
            url = ''https://cdn.jsdelivr.net/lib.js'',
            scheme = ''https'', host = ''cdn.jsdelivr.net'', path = ''/lib.js'',
            category = ''cdn/library'', subcategory = ''cdn.'',
            first_party = False, notes = []\<rparr>]
   \<and> process_scripts ok [''# comment''] ''example.com'' = Inr []
   \<and> process_scripts ok [''not a url''] ''example.com'' = Inr []"
  by code_simp

text \<open>
  Claim C6. A line whose trimmed form starts with \<^verbatim>\<open>//\<close> is passed over by the
  pipeline as a comment: the run with the line is the run without it, and the line
  alone gives no record. The extractor on its own does return a URL for such a line: the
  trimmed line itself, unless the line is a script tag whose \<^verbatim>\<open>src\<close> attribute it
  captures.
\<close>

theorem double_slash_line_skipped:
  assumes "prefix ''//'' (py_strip l)"
  shows "process_scripts ok (pre @ l # post) pd = process_scripts ok (pre @ post) pd
       \<and> process_scripts ok [l] pd = Inr []
       \<and> (\<exists>u. extract_url_from_line l = Some u)
       \<and> (\<not> (sublist ''<script'' (py_lower (py_strip l)) \<and> src_search (py_strip l) \<noteq> None)
            \<longrightarrow> extract_url_from_line l = Some (py_strip l))"
proof -
  from assms have c: "is_comment (py_strip l)"
    by (simp add: is_comment_def startswith_iff_prefix)
  then have n: "line_entry ok pd l = None" by (rule line_entry_comment)
  have 1: "process_scripts ok (pre @ l # post) pd = process_scripts ok (pre @ post) pd"
    using n by (rule process_scripts_skip)
  have 2: "process_scripts ok [l] pd = Inr []"
    using process_scripts_skip [OF n, of "[]" "[]"] by (simp add: process_scripts_def)
  from assms have ne: "py_strip l \<noteq> []" by auto
  from assms have u: "looks_like_url (py_strip l)" by (simp add: looks_like_url_iff)
  have 3: "\<exists>u. extract_url_from_line l = Some u"
    using ne u by (simp add: extract_url_from_line_def Let_def split: option.splits)
  have 4: "\<not> (sublist ''<script'' (py_lower (py_strip l)) \<and> src_search (py_strip l) \<noteq> None)
            \<longrightarrow> extract_url_from_line l = Some (py_strip l)"
    using ne u by (auto simp: extract_url_from_line_def Let_def py_in_iff_sublist)
  from 1 2 3 4 show ?thesis by blast
qed

theorem double_slash_line_skipped_witness:
  "prefix ''//'' (py_strip ''  //cdn.example.com/lib.js'')
   \<and> process_scripts permissive [''  //cdn.example.com/lib.js''] ''example.com'' = Inr []
   \<and> extract_url_from_line ''  //cdn.example.com/lib.js'' = Some ''//cdn.example.com/lib.js''"
proof -
  have p: "prefix ''//'' (py_strip ''  //cdn.example.com/lib.js'')" by code_simp
  have s: "py_strip ''  //cdn.example.com/lib.js'' = ''//cdn.example.com/lib.js''" by code_simp
  have n: "\<not> sublist ''<script'' (py_lower (py_strip ''  //cdn.example.com/lib.js''))" by code_simp
  from double_slash_line_skipped [OF p, of permissive "[]" "[]" "''example.com''"] n s p
  show ?thesis by (simp add: process_scripts_def)
qed

text \<open>
  Claim C5, as the specification states it, fails: \<^verbatim>\<open>urlparse\<close> raises
  \<^verbatim>\<open>ValueError\<close> on an authority with an unmatched square bracket, even with the most
  permissive library; \<^verbatim>\<open>normalize_url\<close> does not catch it, and neither does the
  pipeline, which ends without reaching the well-formed line that follows.
\<close>

theorem normalize_url_raises_counterexample:
  "normalize_url permissive ''http://['' = Inl ValueError
   \<and> process_scripts permissive
        [''http://['', ''https://www.google-analytics.com/ga.js''] ''example.com''
      = Inl ValueError"
  by code_simp

text \<open>
  Claim C5, amended. The URL normalizer returns a scheme, a host and a non-empty path
  for every ASCII input without square brackets, and the pipeline returns its records
  for every input all of whose lines are ASCII and without square brackets. The
  normalizer is not total: when \<^verbatim>\<open>urlparse\<close> raises on the URL of a line that is not
  passed over, the error leaves \<^verbatim>\<open>normalize_url\<close> and the pipeline ends with it,
  whatever lines follow.
\<close>

theorem normalize_url_returns_or_aborts:
  "(str_isascii u \<and> CHR ''['' \<notin> set u \<and> CHR '']'' \<notin> set u \<longrightarrow>
      (\<exists>s h p. normalize_url ok u = Inr (s, h, p) \<and> p \<noteq> []))
   \<and> ((\<forall>l\<in>set ls. str_isascii l \<and> CHR ''['' \<notin> set l \<and> CHR '']'' \<notin> set l) \<longrightarrow>
      (\<exists>es. process_scripts ok ls pd = Inr es))
   \<and> (process_scripts ok pre pd = Inr es' \<and> py_strip l \<noteq> [] \<and> \<not> is_comment (py_strip l)
        \<and> extract_url_from_line (py_strip l) = Some v \<and> v \<noteq> []
        \<and> normalize_url ok v = Inl e \<longrightarrow>
      process_scripts ok (pre @ l # post) pd = Inl e)"
proof -
  have 1: "str_isascii u \<and> CHR ''['' \<notin> set u \<and> CHR '']'' \<notin> set u \<longrightarrow>
      (\<exists>s h p. normalize_url ok u = Inr (s, h, p) \<and> p \<noteq> [])"
    using normalize_url_ascii_no_brackets by blast
  have 2: "(\<forall>l\<in>set ls. str_isascii l \<and> CHR ''['' \<notin> set l \<and> CHR '']'' \<notin> set l) \<longrightarrow>
      (\<exists>es. process_scripts ok ls pd = Inr es)"
    unfolding process_scripts_def
    using process_loop_returns [of ls ok pd] line_entry_ascii_no_brackets by blast
  have 3: "process_scripts ok pre pd = Inr es' \<and> py_strip l \<noteq> [] \<and> \<not> is_comment (py_strip l)
        \<and> extract_url_from_line (py_strip l) = Some v \<and> v \<noteq> []
        \<and> normalize_url ok v = Inl e \<longrightarrow>
      process_scripts ok (pre @ l # post) pd = Inl e"
    using process_scripts_abort line_entry_Inl_intro by blast
  from 1 2 3 show ?thesis by blast
qed

theorem normalize_url_returns_or_aborts_witness:
  "normalize_url permissive ''HTTPS://Example.COM'' = Inr (''https'', ''example.com'', ''/'')
   \<and> (\<exists>es. process_scripts permissive [''not a url'', ''https://example.com/a.js''] ''example.com'' = Inr es)
   \<and> process_scripts permissive [''# c''] ''example.com'' = Inr []
   \<and> normalize_url permissive ''http://[::1/x.js'' = Inl ValueError
   \<and> process_scripts permissive
        ([''# c''] @ ''http://[::1/x.js'' # [''https://example.com/a.js'']) ''example.com''
      = Inl ValueError"
proof -
  have a: "str_isascii ''HTTPS://Example.COM''
           \<and> CHR ''['' \<notin> set ''HTTPS://Example.COM'' \<and> CHR '']'' \<notin> set ''HTTPS://Example.COM''"
    by code_simp
  have b: "\<forall>l\<in>set [''not a url'', ''https://example.com/a.js''].
             str_isascii l \<and> CHR ''['' \<notin> set l \<and> CHR '']'' \<notin> set l"
  proof -
    have "str_isascii ''not a url'' \<and> CHR ''['' \<notin> set ''not a url''
          \<and> CHR '']'' \<notin> set ''not a url''
          \<and> str_isascii ''https://example.com/a.js''
          \<and> CHR ''['' \<notin> set ''https://example.com/a.js''
          \<and> CHR '']'' \<notin> set ''https://example.com/a.js''"
      by code_simp
    then show ?thesis by (simp only: list.set ball_simps) blast
  qed
  have c: "process_scripts permissive [''# c''] ''example.com'' = Inr []
           \<and> py_strip ''http://[::1/x.js'' \<noteq> [] \<and> \<not> is_comment (py_strip ''http://[::1/x.js'')
           \<and> extract_url_from_line (py_strip ''http://[::1/x.js'') = Some ''http://[::1/x.js''
           \<and> ''http://[::1/x.js'' \<noteq> []
           \<and> normalize_url permissive ''http://[::1/x.js'' = Inl ValueError"
    by code_simp
  have d: "normalize_url permissive ''HTTPS://Example.COM''
             = Inr (''https'', ''example.com'', ''/'')"
    by code_simp
  from normalize_url_returns_or_aborts
         [of "''HTTPS://Example.COM''" permissive
             "[''not a url'', ''https://example.com/a.js'']" "''example.com''"
             "[''# c'']" "[]" "''http://[::1/x.js''" "''http://[::1/x.js''" ValueError
             "[''https://example.com/a.js'']"]
       a b c d
  show ?thesis by blast
qed

text \<open>
  Claim C8. When the pipeline returns, every record has a non-empty category, one of
  analytics, ads, cdn/library, payment, social, monitoring, maps and generic; a record
  with an empty host is third-party and its notes are the notes of the heuristics (none
  unless the category is generic) followed by \<^verbatim>\<open>No host component detected\<close>. Such a
  record is not discarded: every line that is not passed over and whose URL normalizes
  to an empty host has its record in the output, ending with that note.
\<close>

theorem process_scripts_record_invariants:
  assumes "process_scripts ok ls pd = Inr es"
  shows "(\<forall>e\<in>set es.
            category e \<noteq> []
          \<and> category e \<in> set [''analytics'', ''ads'', ''cdn/library'', ''payment'', ''social'',
                                ''monitoring'', ''maps'', ''generic'']
          \<and> (host e = [] \<longrightarrow>
                \<not> first_party e
              \<and> notes e =
                  (if category e = ''generic'' then heuristic_notes (py_lower (path e)) else [])
                  @ [''No host component detected'']))
       \<and> (\<forall>l\<in>set ls. \<forall>u s p.
            py_strip l \<noteq> [] \<and> \<not> is_comment (py_strip l)
            \<and> extract_url_from_line (py_strip l) = Some u \<and> u \<noteq> []
            \<and> normalize_url ok u = Inr (s, [], p) \<longrightarrow>
            (\<exists>e\<in>set es. raw e = py_strip l \<and> url e = u \<and> host e = [] \<and> path e = p
                         \<and> last (notes e) = ''No host component detected''))"
proof -
  from assms have loop: "process_loop ok pd ls [] = Inr es" by (simp add: process_scripts_def)
  have inv: "category e \<noteq> []
          \<and> category e \<in> set [''analytics'', ''ads'', ''cdn/library'', ''payment'', ''social'',
                                ''monitoring'', ''maps'', ''generic'']
          \<and> (host e = [] \<longrightarrow>
                \<not> first_party e
              \<and> notes e =
                  (if category e = ''generic'' then heuristic_notes (py_lower (path e)) else [])
                  @ [''No host component detected''])"
    if "line_entry ok pd l = Some (Inr e)" for l e
  proof -
    note f = line_entry_Inr [OF that]
    have c: "category e \<in> set [''analytics'', ''ads'', ''cdn/library'', ''payment'', ''social'',
                                ''monitoring'', ''maps'', ''generic'']"
      unfolding f(7) by (rule classify_script_category_set)
    then have "category e \<noteq> []" by auto
    moreover have "\<not> first_party e" if "host e = []"
      using that f(9) by (simp add: is_first_party_def)
    moreover have "notes e =
        (if category e = ''generic'' then heuristic_notes (py_lower (path e)) else [])
        @ [''No host component detected'']" if "host e = []"
      using that f(10) f(7) classify_script_notes [of "[]" "path e"]
      by (simp add: note_no_host_def py_lower_def)
    ultimately show ?thesis using c by blast
  qed
  have 1: "\<forall>e\<in>set es.
            category e \<noteq> []
          \<and> category e \<in> set [''analytics'', ''ads'', ''cdn/library'', ''payment'', ''social'',
                                ''monitoring'', ''maps'', ''generic'']
          \<and> (host e = [] \<longrightarrow>
                \<not> first_party e
              \<and> notes e =
                  (if category e = ''generic'' then heuristic_notes (py_lower (path e)) else [])
                  @ [''No host component detected''])"
    using process_loop_mem [OF loop] inv by blast
  have 2: "\<exists>e\<in>set es. raw e = py_strip l \<and> url e = u \<and> host e = [] \<and> path e = p
                         \<and> last (notes e) = ''No host component detected''"
    if l: "l \<in> set ls" and h: "py_strip l \<noteq> []" "\<not> is_comment (py_strip l)"
       "extract_url_from_line (py_strip l) = Some u" "u \<noteq> []"
       "normalize_url ok u = Inr (s, [], p)" for l u s p
  proof -
    obtain e where e: "line_entry ok pd l = Some (Inr e)" "raw e = py_strip l" "url e = u"
        "host e = []" "path e = p"
      using line_entry_Inr_intro [OF h, of pd] by blast
    from e(1) l have "e \<in> set es" using process_loop_mem [OF loop] by blast
    moreover have "last (notes e) = ''No host component detected''"
      using line_entry_Inr(10) [OF e(1)] e(4) by (simp add: note_no_host_def)
    ultimately show ?thesis using e by blast
  qed
  from 1 2 show ?thesis by blast
qed

theorem process_scripts_record_invariants_witness:
  "process_scripts permissive
     [''<script src='' @ [CHR 0x22] @ ''/widget/app.js'' @ [CHR 0x22] @ ''>''] ''example.com''
   = Inr [\<lparr>raw = ''<script src='' @ [CHR 0x22] @ ''/widget/app.js'' @ [CHR 0x22] @ ''>'',
            url = ''/widget/app.js'', scheme = [], host = [], path = ''/widget/app.js'',
            category = ''generic'', subcategory = [], first_party = False,
            notes = [''Widget-style script (embedded component)'',
                     ''No host component detected'']\<rparr>]
   \<and> heuristic_notes (py_lower ''/widget/app.js'') @ [''No host component detected'']
       = [''Widget-style script (embedded component)'', ''No host component detected'']
   \<and> normalize_url permissive ''/widget/app.js'' = Inr ([], [], ''/widget/app.js'')
   \<and> (\<exists>e\<in>set [\<lparr>raw = ''<script src='' @ [CHR 0x22] @ ''/widget/app.js'' @ [CHR 0x22] @ ''>'',
            url = ''/widget/app.js'', scheme = [], host = [], path = ''/widget/app.js'',
            category = ''generic'', subcategory = [], first_party = False,
            notes = [''Widget-style script (embedded component)'',
                     ''No host component detected'']\<rparr>].
          url e = ''/widget/app.js'' \<and> host e = []
          \<and> last (notes e) = ''No host component detected'')"
proof -
  let ?L = "''<script src='' @ [CHR 0x22] @ ''/widget/app.js'' @ [CHR 0x22] @ ''>''"
  let ?E = "\<lparr>raw = ?L,
            url = ''/widget/app.js'', scheme = [], host = [], path = ''/widget/app.js'',
            category = ''generic'', subcategory = [], first_party = False,
            notes = [''Widget-style script (embedded component)'',
                     ''No host component detected'']\<rparr>"
  have h: "process_scripts permissive [?L] ''example.com'' = Inr [?E]"
    by code_simp
  note t = process_scripts_record_invariants [OF h]
  have "\<forall>e\<in>set [?E]. category e \<noteq> []
          \<and> category e \<in> set [''analytics'', ''ads'', ''cdn/library'', ''payment'', ''social'',
                                ''monitoring'', ''maps'', ''generic'']
          \<and> (host e = [] \<longrightarrow>
                \<not> first_party e
              \<and> notes e =
                  (if category e = ''generic'' then heuristic_notes (py_lower (path e)) else [])
                  @ [''No host component detected''])"
    by (rule conjunct1 [OF t])
  then have "notes ?E = heuristic_notes (py_lower (path ?E)) @ [''No host component detected'']"
    by simp
  then have a: "heuristic_notes (py_lower ''/widget/app.js'') @ [''No host component detected'']
       = [''Widget-style script (embedded component)'', ''No host component detected'']"
    by simp
  have k: "py_strip ?L \<noteq> [] \<and> \<not> is_comment (py_strip ?L)
         \<and> extract_url_from_line (py_strip ?L) = Some ''/widget/app.js''
         \<and> ''/widget/app.js'' \<noteq> []
         \<and> normalize_url permissive ''/widget/app.js'' = Inr ([], [], ''/widget/app.js'')"
    by code_simp
  have "\<forall>l\<in>set [?L]. \<forall>u s p.
            py_strip l \<noteq> [] \<and> \<not> is_comment (py_strip l)
            \<and> extract_url_from_line (py_strip l) = Some u \<and> u \<noteq> []
            \<and> normalize_url permissive u = Inr (s, [], p) \<longrightarrow>
            (\<exists>e\<in>set [?E]. raw e = py_strip l \<and> url e = u \<and> host e = [] \<and> path e = p
                         \<and> last (notes e) = ''No host component detected'')"
    by (rule conjunct2 [OF t])
  then have "py_strip ?L \<noteq> [] \<and> \<not> is_comment (py_strip ?L)
            \<and> extract_url_from_line (py_strip ?L) = Some ''/widget/app.js'' \<and> ''/widget/app.js'' \<noteq> []
            \<and> normalize_url permissive ''/widget/app.js'' = Inr ([], [], ''/widget/app.js'') \<longrightarrow>
            (\<exists>e\<in>set [?E]. raw e = py_strip ?L \<and> url e = ''/widget/app.js'' \<and> host e = []
                         \<and> path e = ''/widget/app.js''
                         \<and> last (notes e) = ''No host component detected'')"
    by (simp only: list.set ball_simps) blast
  with k have "\<exists>e\<in>set [?E]. raw e = py_strip ?L \<and> url e = ''/widget/app.js'' \<and> host e = []
                         \<and> path e = ''/widget/app.js''
                         \<and> last (notes e) = ''No host component detected''"
    by (rule rev_mp)
  then have b: "\<exists>e\<in>set [?E]. url e = ''/widget/app.js'' \<and> host e = []
                         \<and> last (notes e) = ''No host component detected''"
    by blast
  from h a k b show ?thesis by (intro conjI) (simp_all only:)
qed

text \<open>
  Claim C10. The pipeline removes no duplicates. When it returns, the trimmed lines of
  its records are, in the order of the input, exactly the trimmed input lines that are
  not empty, not comments and from which the extractor takes a non-empty URL, so there
  are as many records as such lines; and a line that gives a record \<open>e\<close> gives, repeated
  \<open>n\<close> times, \<open>n\<close> copies of \<open>e\<close>.
\<close>

theorem process_scripts_one_record_per_line:
  "(process_scripts ok ls pd = Inr es \<longrightarrow>
      map raw es =
        filter (\<lambda>r. r \<noteq> [] \<and> \<not> is_comment r
                     \<and> (\<exists>u. extract_url_from_line r = Some u \<and> u \<noteq> []))
               (map py_strip ls)
      \<and> length es =
        length (filter (\<lambda>r. r \<noteq> [] \<and> \<not> is_comment r
                     \<and> (\<exists>u. extract_url_from_line r = Some u \<and> u \<noteq> []))
               (map py_strip ls)))
   \<and> (process_scripts ok [l] pd = Inr [e] \<longrightarrow>
        process_scripts ok (replicate n l) pd = Inr (replicate n e))"
proof -
  have k: "line_entry ok pd x \<noteq> None \<longleftrightarrow>
             py_strip x \<noteq> [] \<and> \<not> is_comment (py_strip x)
             \<and> (\<exists>u. extract_url_from_line (py_strip x) = Some u \<and> u \<noteq> [])" for x
    by (auto simp: line_entry_None_iff)
  have 1: "map raw es =
        filter (\<lambda>r. r \<noteq> [] \<and> \<not> is_comment r
                     \<and> (\<exists>u. extract_url_from_line r = Some u \<and> u \<noteq> []))
               (map py_strip ls)"
    if "process_scripts ok ls pd = Inr es"
  proof -
    have "filter (\<lambda>l. line_entry ok pd l \<noteq> None) ls =
          filter (\<lambda>x. py_strip x \<noteq> [] \<and> \<not> is_comment (py_strip x)
             \<and> (\<exists>u. extract_url_from_line (py_strip x) = Some u \<and> u \<noteq> [])) ls"
      by (rule filter_cong) (simp_all only: k)
    then show ?thesis
      using process_loop_raws [of ok pd ls es] that
      by (simp only: process_scripts_def filter_map_comp)
  qed
  have 2: "process_scripts ok (replicate n l) pd = Inr (replicate n e)"
    if "process_scripts ok [l] pd = Inr [e]"
  proof -
    from that have "line_entry ok pd l = Some (Inr e)"
      by (auto simp: process_scripts_def process_loop_Cons split: option.splits sum.splits)
    then show ?thesis
      unfolding process_scripts_def by (rule process_loop_replicate)
  qed
  have 3: "length es =
        length (filter (\<lambda>r. r \<noteq> [] \<and> \<not> is_comment r
                     \<and> (\<exists>u. extract_url_from_line r = Some u \<and> u \<noteq> []))
               (map py_strip ls))"
    if "process_scripts ok ls pd = Inr es"
    using arg_cong [OF 1 [OF that], of length] by (simp only: length_map)
  from 1 2 3 show ?thesis by blast
qed

theorem process_scripts_one_record_per_line_witness:
  "process_scripts permissive
     [''https://a.io/x.js'', ''# note'', ''https://a.io/x.js''] ''a.io''
   = Inr [\<lparr>raw = ''https://a.io/x.js'', url = ''https://a.io/x.js'', scheme = ''https'',
            host = ''a.io'', path = ''/x.js'', category = ''generic'', subcategory = [],
            first_party = True, notes = []\<rparr>,
          \<lparr>raw = ''https://a.io/x.js'', url = ''https://a.io/x.js'', scheme = ''https'',
            host = ''a.io'', path = ''/x.js'', category = ''generic'', subcategory = [],
            first_party = True, notes = []\<rparr>]
   \<and> filter (\<lambda>r. r \<noteq> [] \<and> \<not> is_comment r
                     \<and> (\<exists>u. extract_url_from_line r = Some u \<and> u \<noteq> []))
               (map py_strip [''https://a.io/x.js'', ''# note'', ''https://a.io/x.js''])
       = [''https://a.io/x.js'', ''https://a.io/x.js'']
   \<and> process_scripts permissive (replicate 3 ''https://a.io/x.js'') ''a.io''
       = Inr (replicate 3
           \<lparr>raw = ''https://a.io/x.js'', url = ''https://a.io/x.js'', scheme = ''https'',
            host = ''a.io'', path = ''/x.js'', category = ''generic'', subcategory = [],
            first_party = True, notes = []\<rparr>)"
proof -
  let ?E = "\<lparr>raw = ''https://a.io/x.js'', url = ''https://a.io/x.js'', scheme = ''https'',
            host = ''a.io'', path = ''/x.js'', category = ''generic'', subcategory = [],
            first_party = True, notes = []\<rparr>"
  have h1: "process_scripts permissive
     [''https://a.io/x.js'', ''# note'', ''https://a.io/x.js''] ''a.io'' = Inr [?E, ?E]"
    by code_simp
  have h2: "process_scripts permissive [''https://a.io/x.js''] ''a.io'' = Inr [?E]"
    by code_simp
  note t = process_scripts_one_record_per_line
         [of permissive "[''https://a.io/x.js'', ''# note'', ''https://a.io/x.js'']"
             "''a.io''" "[?E, ?E]" "''https://a.io/x.js''" ?E 3]
  have a: "map raw [?E, ?E] =
        filter (\<lambda>r. r \<noteq> [] \<and> \<not> is_comment r
                     \<and> (\<exists>u. extract_url_from_line r = Some u \<and> u \<noteq> []))
               (map py_strip [''https://a.io/x.js'', ''# note'', ''https://a.io/x.js''])"
    by (rule conjunct1 [OF mp [OF conjunct1 [OF t] h1]])
  have b: "map raw [?E, ?E] = [''https://a.io/x.js'', ''https://a.io/x.js'']"
    by simp
  have c: "process_scripts permissive (replicate 3 ''https://a.io/x.js'') ''a.io''
       = Inr (replicate 3 ?E)"
    by (rule mp [OF conjunct2 [OF t] h2])
  have d: "filter (\<lambda>r. r \<noteq> [] \<and> \<not> is_comment r
                     \<and> (\<exists>u. extract_url_from_line r = Some u \<and> u \<noteq> []))
               (map py_strip [''https://a.io/x.js'', ''# note'', ''https://a.io/x.js''])
       = [''https://a.io/x.js'', ''https://a.io/x.js'']"
    by (rule trans [OF a [symmetric] b])
  from h1 d c show ?thesis by (intro conjI)
qed

subsection \<open>The output base name\<close>

text \<open>
  Claim C9. The base name is the output prefix with \<^verbatim>\<open>rstrip(".md")\<close> applied, which
  removes every trailing character that is a dot, an \<^verbatim>\<open>m\<close> or a \<^verbatim>\<open>d\<close>, one by
  one: what is removed consists of such characters only and what is left does not end
  in one. This is not the removal of the literal suffix \<^verbatim>\<open>.md\<close>: for the prefix
  \<^verbatim>\<open>build\<close> the base is \<^verbatim>\<open>buil\<close>, while removing a literal \<^verbatim>\<open>.md\<close> leaves
  \<^verbatim>\<open>build\<close> as it is.
\<close>

theorem output_base_strips_char_set:
  "(\<exists>t. s = output_base s @ t \<and> set t \<subseteq> {CHR ''.'', CHR ''m'', CHR ''d''})
   \<and> (output_base s \<noteq> [] \<longrightarrow> last (output_base s) \<notin> {CHR ''.'', CHR ''m'', CHR ''d''})
   \<and> output_base ''build'' = ''buil'' \<and> strip_md_suffix ''build'' = ''build''
   \<and> output_base ''build'' \<noteq> strip_md_suffix ''build''"
proof -
  obtain t where "s = output_base s @ t" "\<forall>c\<in>set t. c \<in> set ''.md''"
    using py_rstrip_decomp [of s "\<lambda>c. c \<in> set ''.md''"] unfolding output_base_def by blast
  then have "\<exists>t. s = output_base s @ t \<and> set t \<subseteq> {CHR ''.'', CHR ''m'', CHR ''d''}"
    by auto
  moreover have "output_base s \<noteq> [] \<longrightarrow> last (output_base s) \<notin> {CHR ''.'', CHR ''m'', CHR ''d''}"
    using py_rstrip_last [of "\<lambda>c. c \<in> set ''.md''" s] unfolding output_base_def by auto
  moreover have "output_base ''build'' = ''buil''" by code_simp
  moreover have "strip_md_suffix ''build'' = ''build''" by code_simp
  ultimately show ?thesis by simp
qed

theorem output_base_strips_char_set_witness:
  "output_base ''cmd.md'' = ''c'' \<and> strip_md_suffix ''cmd.md'' = ''cmd''
   \<and> last (output_base ''cmd.md'') \<notin> {CHR ''.'', CHR ''m'', CHR ''d''}"
proof -
  have a: "output_base ''cmd.md'' = ''c''" by code_simp
  have b: "strip_md_suffix ''cmd.md'' = ''cmd''" by code_simp
  from a have "output_base ''cmd.md'' \<noteq> []" by simp
  with output_base_strips_char_set [of "''cmd.md''"]
  have "last (output_base ''cmd.md'') \<notin> {CHR ''.'', CHR ''m'', CHR ''d''}" by blast
  with a b show ?thesis by blast
qed

end
